theory Spec2Isabelle
  imports Main
begin

section \<open>Python strings\<close>

text \<open>
  A Python \<open>str\<close> is modelled as a \<open>string\<close> (a list of \<open>char\<close>), each character
  standing for a code point below 256.  On that range \<open>str.isspace\<close>, which decides both
  what \<open>str.strip()\<close> removes and what the pattern \<open>\s\<close> matches, holds exactly for the
  twelve characters listed in \<open>isspace\<close>, and \<open>\d\<close> matches exactly the ten ASCII digits.
\<close>

abbreviation NL :: char where
  "NL \<equiv> CHR 0x0A"

abbreviation DQ :: char where
  "DQ \<equiv> CHR 0x22"

definition isspace :: "char \<Rightarrow> bool" where
  "isspace c = (c \<in> set [CHR 0x09, CHR 0x0A, CHR 0x0B, CHR 0x0C, CHR 0x0D,
     CHR 0x1C, CHR 0x1D, CHR 0x1E, CHR 0x1F, CHR 0x20, CHR 0x85, CHR 0xA0])"

definition isdigit :: "char \<Rightarrow> bool" where
  "isdigit c = (c \<in> set ''0123456789'')"

definition lstrip :: "string \<Rightarrow> string" where
  "lstrip s = dropWhile isspace s"

definition rstrip :: "string \<Rightarrow> string" where
  "rstrip s = rev (dropWhile isspace (rev s))"

text \<open>\<open>s.strip()\<close>\<close>

definition strip :: "string \<Rightarrow> string" where
  "strip s = lstrip (rstrip s)"

text \<open>\<open>s.startswith(p)\<close> and \<open>s.endswith(p)\<close>\<close>

fun startswith :: "string \<Rightarrow> string \<Rightarrow> bool" where
  "startswith s [] = True"
| "startswith [] (p # ps) = False"
| "startswith (c # cs) (p # ps) = (c = p \<and> startswith cs ps)"

definition endswith :: "string \<Rightarrow> string \<Rightarrow> bool" where
  "endswith s p = startswith (rev s) (rev p)"

text \<open>\<open>sub in s\<close>\<close>

fun contains :: "string \<Rightarrow> string \<Rightarrow> bool" where
  "contains [] sub = (sub = [])"
| "contains (c # cs) sub = (startswith (c # cs) sub \<or> contains cs sub)"

text \<open>\<open>s.split(d)\<close> for a one-character separator: never the empty list.\<close>

fun split :: "string \<Rightarrow> char \<Rightarrow> string list" where
  "split [] d = [[]]"
| "split (c # cs) d =
     (if c = d then [] # split cs d
      else (case split cs d of [] \<Rightarrow> [[c]] | l # ls \<Rightarrow> (c # l) # ls))"

text \<open>\<open>sep.join(xs)\<close>\<close>

fun join :: "string \<Rightarrow> string list \<Rightarrow> string" where
  "join sep [] = []"
| "join sep [x] = x"
| "join sep (x # y # ys) = x @ sep @ join sep (y # ys)"

text \<open>
  \<open>s.replace(old, new)\<close>: the occurrences of \<open>old\<close> are found from left to right, each
  search resuming behind the previous occurrence.  For an empty \<open>old\<close> Python puts
  \<open>new\<close> before every character and at the end.
\<close>

function replace_from :: "string \<Rightarrow> string \<Rightarrow> string \<Rightarrow> string" where
  "replace_from [] old new = []"
| "replace_from (c # cs) old new =
     (if old \<noteq> [] \<and> startswith (c # cs) old
      then new @ replace_from (drop (length old) (c # cs)) old new
      else c # replace_from cs old new)"
  by pat_completeness auto
termination
  by (relation "measure (\<lambda>(s, old, new). length s)") (auto simp: neq_Nil_conv)

definition replace :: "string \<Rightarrow> string \<Rightarrow> string \<Rightarrow> string" where
  "replace s old new =
     (if old = [] then new @ concat (map (\<lambda>c. c # new) s) else replace_from s old new)"

text \<open>\<open>s.upper()\<close> and \<open>s.lower()\<close> on the ASCII letters.\<close>

definition upper_char :: "char \<Rightarrow> char" where
  "upper_char c = (case map_of (zip ''abcdefghijklmnopqrstuvwxyz'' ''ABCDEFGHIJKLMNOPQRSTUVWXYZ'') c
     of Some u \<Rightarrow> u | None \<Rightarrow> c)"

definition lower_char :: "char \<Rightarrow> char" where
  "lower_char c = (case map_of (zip ''ABCDEFGHIJKLMNOPQRSTUVWXYZ'' ''abcdefghijklmnopqrstuvwxyz'') c
     of Some u \<Rightarrow> u | None \<Rightarrow> c)"

definition upper :: "string \<Rightarrow> string" where
  "upper s = map upper_char s"

definition lower :: "string \<Rightarrow> string" where
  "lower s = map lower_char s"

section \<open>Judge response parsing (\<open>process_with_judge\<close>, lines 182-226)\<close>

text \<open>The three local variables of the line loop.\<close>

record scan_state =
  current_section :: string
  acc_final_answer :: string
  acc_reasoning :: string

text \<open>The dictionary returned by \<open>process_with_judge\<close>, with its two keys.\<close>

record judge_result =
  final_answer :: string
  reasoning :: string

definition scan_init :: scan_state where
  "scan_init = \<lparr>current_section = [], acc_final_answer = [], acc_reasoning = []\<rparr>"

text \<open>The body of the \<open>for\<close> loop over the lines.\<close>

definition scan_line :: "scan_state \<Rightarrow> string \<Rightarrow> scan_state" where
  "scan_line st line =
     (if startswith line ''FINAL_ANSWER:''
      then st\<lparr>current_section := ''final_answer'',
              acc_final_answer := strip (replace line ''FINAL_ANSWER:'' [])\<rparr>
      else if startswith line ''REASONING:''
      then st\<lparr>current_section := ''reasoning'',
              acc_reasoning := strip (replace line ''REASONING:'' [])\<rparr>
      else if current_section st = ''final_answer''
      then st\<lparr>acc_final_answer := acc_final_answer st @ '' '' @ strip line\<rparr>
      else if current_section st = ''reasoning''
      then st\<lparr>acc_reasoning := acc_reasoning st @ '' '' @ strip line\<rparr>
      else st)"

fun scan_lines :: "scan_state \<Rightarrow> string list \<Rightarrow> scan_state" where
  "scan_lines st [] = st"
| "scan_lines st (line # ls) = scan_lines (scan_line st line) ls"

text \<open>
  The parsing part of \<open>process_with_judge\<close>: the line loop, the fallback and the returned
  dictionary.  Both branches of the case-insensitive test assign the same value.
\<close>

definition parse_judge_response :: "string \<Rightarrow> judge_result" where
  "parse_judge_response judge_response =
     (let st = scan_lines scan_init (split judge_response NL);
          fa = (if strip (acc_final_answer st) = [] \<and> strip (acc_reasoning st) = []
                then (let response_upper = upper judge_response in
                      if contains response_upper ''FINAL_ANSWER:''
                         \<or> contains response_upper ''FINAL ANSWER:''
                      then strip judge_response
                      else strip judge_response)
                else acc_final_answer st)
      in \<lparr>final_answer = strip fa, reasoning = strip (acc_reasoning st)\<rparr>)"

section \<open>The Markup Normalizer (\<open>convert_to_markup\<close>, lines 228-284)\<close>

subsection \<open>Regular-expression substitution\<close>

text \<open>
  \<open>re.sub(pattern, repl, text)\<close> tries the pattern at every position from left to right.
  Where it matches, the expanded replacement is emitted and the scan resumes behind the
  match; elsewhere the character is copied.  A pattern is given by its matcher: at a
  position, knowing whether that position is the start of a line (for \<open>^\<close> under
  \<open>re.MULTILINE\<close>: the start of the text or just behind a newline), it returns the
  expanded replacement and the length of the match.  None of the patterns of
  \<open>convert_to_markup\<close> matches the empty string, so every match has a positive length
  and no match is found at the end of the text.  The \<open>nat\<close> argument counts the
  characters of the current match still to be skipped.
\<close>

type_synonym matcher = "bool \<Rightarrow> string \<Rightarrow> (string \<times> nat) option"

fun re_sub :: "matcher \<Rightarrow> bool \<Rightarrow> nat \<Rightarrow> string \<Rightarrow> string" where
  "re_sub m bol k [] = []"
| "re_sub m bol (Suc k) (c # cs) = re_sub m (c = NL) k cs"
| "re_sub m bol 0 (c # cs) =
     (case m bol (c # cs) of
        None \<Rightarrow> c # re_sub m (c = NL) 0 cs
      | Some (repl, n) \<Rightarrow> repl @ re_sub m (c = NL) (n - 1) cs)"

text \<open>
  The lazy group \<open>(.*?)\<close> followed by a literal: the shortest run of characters up to
  the first occurrence of the literal.  Without \<open>re.DOTALL\<close> the dot does not match a
  newline, so the search fails at the first newline.  The result is the group.
\<close>

fun lazy_until :: "bool \<Rightarrow> string \<Rightarrow> string \<Rightarrow> string option" where
  "lazy_until dotall lit [] = (if lit = [] then Some [] else None)"
| "lazy_until dotall lit (c # cs) =
     (if startswith (c # cs) lit then Some []
      else if c = NL \<and> \<not> dotall then None
      else map_option (\<lambda>g. c # g) (lazy_until dotall lit cs))"

text \<open>
  \<open>^###\s*(.*)\<close>, \<open>^##\s*(.*)\<close> and \<open>^#\s*(.*)\<close> with \<open>re.MULTILINE\<close>, replaced by
  \<open><hN>\1</hN>\<close>: behind the marker \<open>\s*\<close> takes all the whitespace there is, newlines
  included, and the group the rest of the line reached.
\<close>

definition m_header :: "string \<Rightarrow> string \<Rightarrow> matcher" where
  "m_header marker tag bol s =
     (if bol \<and> startswith s marker
      then (let ws = takeWhile isspace (drop (length marker) s);
                content = takeWhile (\<lambda>x. x \<noteq> NL) (dropWhile isspace (drop (length marker) s))
            in Some (''<'' @ tag @ ''>'' @ content @ ''</'' @ tag @ ''>'',
                     length marker + length ws + length content))
      else None)"

text \<open>\<open>^---+\<close> with \<open>re.MULTILINE\<close>, replaced by \<open><hr>\<close>.\<close>

definition m_hr :: matcher where
  "m_hr bol s =
     (if bol \<and> startswith s ''---''
      then Some (''<hr>'', length (takeWhile (\<lambda>x. x = CHR ''-'') s))
      else None)"

text \<open>\<open>\*\*(.*?)\*\*\<close>, replaced by \<open><strong>\1</strong>\<close>.\<close>

definition m_bold :: matcher where
  "m_bold bol s =
     (if startswith s ''**''
      then (case lazy_until False ''**'' (drop 2 s) of
              None \<Rightarrow> None
            | Some g \<Rightarrow> Some (''<strong>'' @ g @ ''</strong>'', 2 + length g + 2))
      else None)"

text \<open>\<open>\*(.*?)\*\<close>, replaced by \<open><em>\1</em>\<close>.\<close>

definition m_italic :: matcher where
  "m_italic bol s =
     (if startswith s ''*''
      then (case lazy_until False ''*'' (drop 1 s) of
              None \<Rightarrow> None
            | Some g \<Rightarrow> Some (''<em>'' @ g @ ''</em>'', 1 + length g + 1))
      else None)"

text \<open>
  One round of the group of \<open>(<li>.*?</li>\n?)+\<close> under \<open>re.DOTALL\<close>: its length, if it
  matches at the start of \<open>s\<close>.
\<close>

definition li_item :: "string \<Rightarrow> nat option" where
  "li_item s =
     (if startswith s ''<li>''
      then (case lazy_until True ''</li>'' (drop 4 s) of
              None \<Rightarrow> None
            | Some g \<Rightarrow>
                (let n = 4 + length g + 5
                 in Some (if startswith (drop n s) [NL] then n + 1 else n)))
      else None)"

text \<open>The greedy repetition: the total length of the rounds that match one after another.\<close>

function li_run :: "string \<Rightarrow> nat" where
  "li_run s = (case li_item s of None \<Rightarrow> 0 | Some n \<Rightarrow> n + li_run (drop n s))"
  by pat_completeness auto
termination
proof (relation "measure length")
  fix s n
  assume "li_item s = Some n"
  then have "s \<noteq> []" and "0 < n"
    by (auto simp: li_item_def Let_def split: if_splits option.splits)
  then show "(drop n s, s) \<in> measure length"
    by simp
qed simp

text \<open>
  \<open>(<li>.*?</li>\n?)+\<close> with \<open>re.DOTALL\<close>, replaced by the whole match between
  \<open><ul class=?list-unstyled?>\<close> (with double quotes for \<open>?\<close>), a newline, and \<open></ul>\<close>.
\<close>

definition m_li :: matcher where
  "m_li bol s =
     (case li_item s of
        None \<Rightarrow> None
      | Some n \<Rightarrow>
          (let total = n + li_run (drop n s)
           in Some (''<ul class='' @ [DQ] @ ''list-unstyled'' @ [DQ] @ ''>'' @ [NL] @ take total s @ ''</ul>'', total)))"

text \<open>\<open><p></p>\<close>, replaced by the empty string.\<close>

definition m_empty_p :: matcher where
  "m_empty_p bol s = (if startswith s ''<p></p>'' then Some ([], 7) else None)"

text \<open>\<open><br>\s*<br>\<close>, replaced by \<open><br>\<close>.\<close>

definition m_br :: matcher where
  "m_br bol s =
     (if startswith s ''<br>''
      then (let ws = takeWhile isspace (drop 4 s)
            in if startswith (drop (4 + length ws) s) ''<br>''
               then Some (''<br>'', 4 + length ws + 4)
               else None)
      else None)"

text \<open>\<open>\n+\<close>, replaced by one newline.\<close>

definition m_newlines :: matcher where
  "m_newlines bol s =
     (if startswith s [NL]
      then Some ([NL], length (takeWhile (\<lambda>x. x = NL) s))
      else None)"

subsection \<open>The line loop\<close>

text \<open>\<open>re.match(r'^\d+\.\s', line)\<close>\<close>

definition match_numbered :: "string \<Rightarrow> bool" where
  "match_numbered line =
     (takeWhile isdigit line \<noteq> [] \<and>
      (case dropWhile isdigit line of
         d # e # rest \<Rightarrow> d = CHR ''.'' \<and> isspace e
       | _ \<Rightarrow> False))"

text \<open>\<open>re.sub(r'^[-\d\.]+\s*', '', line)\<close>: without \<open>re.MULTILINE\<close>, at the start only.\<close>

definition bullet_char :: "char \<Rightarrow> bool" where
  "bullet_char c = (c = CHR ''-'' \<or> isdigit c \<or> c = CHR ''.'')"

definition strip_bullet :: "string \<Rightarrow> string" where
  "strip_bullet line =
     (if takeWhile bullet_char line = [] then line
      else dropWhile isspace (dropWhile bullet_char line))"

text \<open>The body of the loop over the lines: what is appended to \<open>processed_lines\<close>.\<close>

definition process_line :: "string \<Rightarrow> string" where
  "process_line line0 =
     (let line = strip line0 in
      if line = [] then ''<br>''
      else if startswith line ''<h'' \<and> endswith line ''>'' then line
      else if startswith line ''<hr>'' then line
      else if startswith line ''- '' \<or> match_numbered line
      then ''<li>'' @ strip_bullet line @ ''</li>''
      else if startswith line ''> ''
      then ''<blockquote class='' @ [DQ] @ ''blockquote'' @ [DQ] @ ''><p>'' @ drop 2 line @ ''</p></blockquote>''
      else ''<p>'' @ line @ ''</p>'')"

subsection \<open>The function\<close>

text \<open>Steps 1 and 2 (lines 233-239): headers, then horizontal rules.\<close>

definition headers_and_rules :: "string \<Rightarrow> string" where
  "headers_and_rules text =
     (let text = re_sub (m_header ''###'' ''h3'') True 0 text;
          text = re_sub (m_header ''##'' ''h2'') True 0 text;
          text = re_sub (m_header ''#'' ''h1'') True 0 text
      in re_sub m_hr True 0 text)"

text \<open>Step 7 (lines 279-282): the clean-up.\<close>

definition clean_up :: "string \<Rightarrow> string" where
  "clean_up text =
     (let text = re_sub m_empty_p True 0 text;
          text = re_sub m_br True 0 text
      in re_sub m_newlines True 0 text)"

definition convert_to_markup :: "string \<Rightarrow> string" where
  "convert_to_markup text =
     (if text = [] then []
      else (let text = headers_and_rules text;
                text = re_sub m_bold True 0 text;
                text = re_sub m_italic True 0 text;
                processed_lines = map process_line (split text NL);
                text = join [NL] processed_lines;
                text = re_sub m_li True 0 text;
                text = clean_up text
            in strip text))"

section \<open>The request handlers (\<open>ask_question\<close>, \<open>web_ask_question\<close>, lines 286-412)\<close>

text \<open>
  What a handler can raise: an \<open>HTTPException\<close> with its status code and detail, or any
  other exception, with the name of its type and its \<open>str()\<close>.
\<close>

datatype exn = HTTPException nat string | OtherError string string

text \<open>\<open>os.getenv\<close>: the environment, a partial map from names to values.\<close>

type_synonym env = "string \<rightharpoonup> string"

text \<open>One call of \<open>call_cerebras_model(model, user_input, system_message)\<close>.\<close>

datatype invocation = Invoke string string string

text \<open>
  A handler's run: the model invocations it issued, in order, and what it returned or
  raised.
\<close>

type_synonym 'a run = "invocation list \<times> (exn + 'a)"

text \<open>A value of the environment that Python takes as false: unset or empty.\<close>

definition unset :: "string option \<Rightarrow> bool" where
  "unset v = (v = None \<or> v = Some [])"

text \<open>How an f-string prints the result of \<open>os.getenv\<close>.\<close>

definition show_env :: "string option \<Rightarrow> string" where
  "show_env v = (case v of None \<Rightarrow> ''None'' | Some x \<Rightarrow> x)"

text \<open>\<open>model_responses.get(key, 'No response')\<close>\<close>

definition get_response :: "(string \<rightharpoonup> string) \<Rightarrow> string \<Rightarrow> string" where
  "get_response model_responses key =
     (case model_responses key of None \<Rightarrow> ''No response'' | Some x \<Rightarrow> x)"

text \<open>The prompt sent to the judge (lines 141-169).\<close>

definition judge_prompt :: "env \<Rightarrow> string \<Rightarrow> (string \<rightharpoonup> string) \<Rightarrow> string" where
  "judge_prompt e user_input model_responses =
     ''You are an expert AI judge tasked with synthesizing responses from multiple AI models.'' @ [NL]
     @ [NL]
     @ ''User Question: '' @ user_input @ [NL]
     @ [NL]
     @ ''Model Responses:'' @ [NL]
     @ ''MODEL1 ('' @ show_env (e ''MODEL1'') @ ''): '' @ get_response model_responses ''MODEL1'' @ [NL]
     @ [NL]
     @ ''MODEL2 ('' @ show_env (e ''MODEL2'') @ ''): '' @ get_response model_responses ''MODEL2'' @ [NL]
     @ [NL]
     @ ''MODEL3 ('' @ show_env (e ''MODEL3'') @ ''): '' @ get_response model_responses ''MODEL3'' @ [NL]
     @ [NL]
     @ ''Please provide:'' @ [NL]
     @ ''1. A final synthesized answer that combines the best aspects of all three responses'' @ [NL]
     @ ''2. Your reasoning for how you arrived at this synthesis'' @ [NL]
     @ [NL]
     @ ''IMPORTANT: Format your FINAL_ANSWER section using proper HTML markup:'' @ [NL]
     @ ''- Use <h1>, <h2>, <h3> for headers'' @ [NL]
     @ ''- Use <strong> for bold text instead of **bold**'' @ [NL]
     @ ''- Use <em> for italic text instead of *italic*'' @ [NL]
     @ ''- Use <ul><li> for bullet lists instead of - bullets'' @ [NL]
     @ ''- Use <ol><li> for numbered lists instead of 1. 2. 3.'' @ [NL]
     @ ''- Use <p> for paragraphs'' @ [NL]
     @ ''- Use <hr> for horizontal rules instead of ---'' @ [NL]
     @ ''- Use <blockquote> for quotes instead of >'' @ [NL]
     @ [NL]
     @ ''Format your response as:'' @ [NL]
     @ ''FINAL_ANSWER: [Your synthesized response in HTML format here]'' @ [NL]
     @ ''REASONING: [Your reasoning process here]''"

definition judge_system_message :: string where
  "judge_system_message =
     ''You are an expert AI judge that synthesizes multiple AI responses into a single, high-quality answer.''"

text \<open>
  \<open>process_with_judge\<close>.  \<open>judge_out\<close> is what awaiting the judge's
  \<open>call_cerebras_model\<close> gives: the text, or the exception raised.
\<close>

definition process_with_judge ::
  "env \<Rightarrow> (exn + string) \<Rightarrow> string \<Rightarrow> (string \<rightharpoonup> string) \<Rightarrow> judge_result run" where
  "process_with_judge e judge_out user_input model_responses =
     (case e ''JUDGE'' of
        None \<Rightarrow> ([], Inl (HTTPException 500 ''Judge model not configured''))
      | Some judge_model \<Rightarrow>
          if judge_model = [] then ([], Inl (HTTPException 500 ''Judge model not configured''))
          else ([Invoke judge_model (judge_prompt e user_input model_responses) judge_system_message],
                case judge_out of
                  Inl err \<Rightarrow> Inl err
                | Inr judge_response \<Rightarrow> Inr (parse_judge_response judge_response)))"

text \<open>
  \<open>await asyncio.gather(*tasks)\<close>, a function of Python's standard library.  \<open>outs\<close> is
  what each task gives when it completes, in the order of \<open>tasks\<close>, and \<open>order\<close> lists
  the indices of the tasks in the order in which they complete.  The first exception
  raised by a task that completes is propagated at once; when every task has completed
  without one, the result is the list of their values in the order of \<open>tasks\<close>; when
  neither happens \<open>gather\<close> does not return (\<open>None\<close>).
\<close>

definition gather :: "nat list \<Rightarrow> (exn + string) list \<Rightarrow> (exn + string list) option" where
  "gather order outs =
     (case find (\<lambda>i. i < length outs \<and> isl (outs ! i)) order of
        Some i \<Rightarrow> Some (Inl (projl (outs ! i)))
      | None \<Rightarrow>
          if list_all (\<lambda>i. i \<in> set order) [0..<length outs]
          then Some (Inr (map projr outs))
          else None)"

text \<open>
  The fan-out, written twice in the source (lines 298-312 and 373-388): the three
  results are gathered and stored under their labels.
\<close>

definition fan_out ::
  "nat list \<Rightarrow> (exn + string) \<Rightarrow> (exn + string) \<Rightarrow> (exn + string)
     \<Rightarrow> (exn + (string \<rightharpoonup> string)) option" where
  "fan_out order out1 out2 out3 =
     (case gather order [out1, out2, out3] of
        None \<Rightarrow> None
      | Some (Inl err) \<Rightarrow> Some (Inl err)
      | Some (Inr responses) \<Rightarrow>
          Some (Inr [''MODEL1'' \<mapsto> responses ! 0, ''MODEL2'' \<mapsto> responses ! 1,
                     ''MODEL3'' \<mapsto> responses ! 2]))"

text \<open>
  The two \<open>except\<close> clauses shared by the handlers: an \<open>HTTPException\<close> is raised again as
  it is, any other exception becomes a status 500 with its message.
\<close>

fun handle_exn :: "exn \<Rightarrow> exn" where
  "handle_exn (HTTPException code detail) = HTTPException code detail"
| "handle_exn (OtherError type_name msg) =
     HTTPException 500 (''Error processing request: ''
       @ (if msg \<noteq> [] then msg else ''Unknown error of type '' @ type_name))"

record QuestionRequest =
  question :: string
  system_message :: string

record ModelResponse =
  input :: string
  models :: "(string \<rightharpoonup> string) option"
  judge :: judge_result

text \<open>
  \<open>ask_question\<close> (POST /ask), behind the API-key check of \<open>verify_api_key\<close>.  The result
  is \<open>None\<close> when the handler does not return.
\<close>

definition ask_question ::
  "env \<Rightarrow> nat list \<Rightarrow> (exn + string) \<Rightarrow> (exn + string) \<Rightarrow> (exn + string) \<Rightarrow> (exn + string)
     \<Rightarrow> QuestionRequest \<Rightarrow> ModelResponse run option" where
  "ask_question e order out1 out2 out3 judge_out request =
     (if unset (e ''MODEL1'') \<or> unset (e ''MODEL2'') \<or> unset (e ''MODEL3'')
      then Some ([], Inl (HTTPException 500 ''Models not properly configured''))
      else
        (let tasks = [Invoke (the (e ''MODEL1'')) (question request) (system_message request),
                      Invoke (the (e ''MODEL2'')) (question request) (system_message request),
                      Invoke (the (e ''MODEL3'')) (question request) (system_message request)]
         in case fan_out order out1 out2 out3 of
              None \<Rightarrow> None
            | Some (Inl err) \<Rightarrow> Some (tasks, Inl (handle_exn err))
            | Some (Inr model_responses) \<Rightarrow>
                (case process_with_judge e judge_out (question request) model_responses of
                   (calls, Inl err) \<Rightarrow> Some (tasks @ calls, Inl (handle_exn err))
                 | (calls, Inr judge_result) \<Rightarrow>
                     (let show_model_output =
                            (lower (case e ''SHOW_MODEL_OUTPUT'' of None \<Rightarrow> ''false'' | Some v \<Rightarrow> v)
                               = ''true'')
                      in Some (tasks @ calls,
                               Inr \<lparr>input = question request,
                                    models = (if show_model_output then Some model_responses else None),
                                    judge = judge_result\<rparr>)))))"

text \<open>
  \<open>web_ask_question\<close> (POST /web-ask).  \<open>validate_csrf_token\<close> stands for the function of
  that name, which asks the token serializer.  The response model has the one field
  \<open>response\<close>, so the handler's value is that string; \<open>question'\<close> is the form field
  \<open>question\<close>.
\<close>

definition web_ask_question ::
  "env \<Rightarrow> (string \<Rightarrow> bool) \<Rightarrow> nat list \<Rightarrow> (exn + string) \<Rightarrow> (exn + string) \<Rightarrow> (exn + string)
     \<Rightarrow> (exn + string) \<Rightarrow> string \<Rightarrow> string \<Rightarrow> string run option" where
  "web_ask_question e validate_csrf_token order out1 out2 out3 judge_out question' csrf_token =
     (if \<not> validate_csrf_token csrf_token
      then Some ([], Inl (HTTPException 403 ''Invalid or expired CSRF token''))
      else if unset (e ''MODEL1'') \<or> unset (e ''MODEL2'') \<or> unset (e ''MODEL3'')
      then Some ([], Inl (handle_exn (HTTPException 500 ''Models not properly configured'')))
      else
        (let tasks = [Invoke (the (e ''MODEL1'')) question' [],
                      Invoke (the (e ''MODEL2'')) question' [],
                      Invoke (the (e ''MODEL3'')) question' []]
         in case fan_out order out1 out2 out3 of
              None \<Rightarrow> None
            | Some (Inl err) \<Rightarrow> Some (tasks, Inl (handle_exn err))
            | Some (Inr model_responses) \<Rightarrow>
                (case process_with_judge e judge_out question' model_responses of
                   (calls, Inl err) \<Rightarrow> Some (tasks @ calls, Inl (handle_exn err))
                 | (calls, Inr judge_result) \<Rightarrow>
                     (let final_response = final_answer judge_result
                      in Some (tasks @ calls, Inr final_response)))))"

section \<open>Notions used to state the properties\<close>

text \<open>A line that begins with one of the two markers of the judge's answer.\<close>

definition marker_line :: "string \<Rightarrow> bool" where
  "marker_line l = (startswith l ''FINAL_ANSWER:'' \<or> startswith l ''REASONING:'')"

text \<open>
  A line that is a heading marker and nothing else: one to three \<open>#\<close> followed by
  whitespace only.  Behind such a marker \<open>\s*\<close> runs over the end of the line.
\<close>

definition bare_marker :: "string \<Rightarrow> bool" where
  "bare_marker l =
     (\<exists>marker\<in>set [''###'', ''##'', ''#''].
        startswith l marker \<and> (\<forall>c\<in>set (drop (length marker) l). isspace c))"

text \<open>
  What the specification says of one line in steps 1 and 2: a line starting with
  \<open>###\<close>, \<open>##\<close> or \<open>#\<close> becomes the heading of that level, holding the rest of the line
  without its leading whitespace; a line starting with three or more dashes has them
  replaced by \<open><hr>\<close>; any other line stays.
\<close>

definition spec_line_markup :: "string \<Rightarrow> string" where
  "spec_line_markup l =
     (if startswith l ''###'' then ''<h3>'' @ lstrip (drop 3 l) @ ''</h3>''
      else if startswith l ''##'' then ''<h2>'' @ lstrip (drop 2 l) @ ''</h2>''
      else if startswith l ''#'' then ''<h1>'' @ lstrip (drop 1 l) @ ''</h1>''
      else if startswith l ''---'' then ''<hr>'' @ dropWhile (\<lambda>c. c = CHR ''-'') l
      else l)"

text \<open>What one header substitution, and the rule substitution, make of one line.\<close>

definition header_line :: "string \<Rightarrow> string \<Rightarrow> string \<Rightarrow> string" where
  "header_line marker tag l =
     (if startswith l marker
      then ''<'' @ tag @ ''>'' @ lstrip (drop (length marker) l) @ ''</'' @ tag @ ''>''
      else l)"

definition rule_line :: "string \<Rightarrow> string" where
  "rule_line l =
     (if startswith l ''---'' then ''<hr>'' @ dropWhile (\<lambda>c. c = CHR ''-'') l else l)"

text \<open>
  A pattern matches locally at the start of a line when what follows the line does not
  change the match, and the match ends within the line.
\<close>

definition local_match :: "matcher \<Rightarrow> string \<Rightarrow> bool" where
  "local_match m l =
     ((\<forall>rest. m True (l @ NL # rest) = m True l)
      \<and> (\<forall>repl n. m True l = Some (repl, n) \<longrightarrow> 0 < n \<and> n \<le> length l))"



section \<open>Properties of the Python string operations\<close>

lemma startswith_take: "startswith s p = (take (length p) s = p)"
  by (induction s p rule: startswith.induct) auto

lemma startswith_append [simp]: "startswith (p @ t) p"
  by (simp add: startswith_take)

lemma startswith_Nil [simp]: "startswith [] p = (p = [])"
  by (cases p) auto

text \<open>An occurrence that starts inside \<open>s\<close> lies within \<open>s\<close> and all but the last character of the marker.\<close>

lemma startswith_straddle:
  assumes "x \<noteq> []" and sw: "startswith (x @ r) m" and r: "r = [] \<or> startswith r m"
  shows "startswith (x @ butlast m) m"
proof -
  let ?n = "length m"
  let ?k = "?n - length x"
  from sw have t: "take ?n x @ take ?k r = m"
    by (simp add: startswith_take)
  have "take ?k r = take ?k (butlast m)"
  proof (cases "r = []")
    case True
    with t have "length (take ?n x) = length m"
      by simp
    then have "length m \<le> length x"
      by simp
    then show ?thesis using True by simp
  next
    case False
    with r have "take ?n r = m" by (simp add: startswith_take)
    then have "take ?k (take ?n r) = take ?k m"
      by simp
    then have "take ?k r = take ?k m"
      by (simp add: min.absorb1)
    moreover have "take ?k (butlast m) = take ?k m"
      using \<open>x \<noteq> []\<close> by (cases x) (simp_all add: butlast_conv_take min_def)
    ultimately show ?thesis by simp
  qed
  with t show ?thesis
    by (simp add: startswith_take)
qed

lemma replace_from_skip:
  assumes "m \<noteq> []" and "\<not> contains (s @ butlast m) m" and "r = [] \<or> startswith r m"
  shows "replace_from (s @ r) m new = s @ replace_from r m new"
  using assms(2)
proof (induction s)
  case Nil
  then show ?case by simp
next
  case (Cons c s)
  from Cons.prems have n: "\<not> startswith ((c # s) @ butlast m) m" and rest: "\<not> contains (s @ butlast m) m"
    by simp_all
  have "\<not> startswith ((c # s) @ r) m"
    using startswith_straddle [of "c # s" r m] n assms(3) by blast
  then show ?case
    using Cons.IH [OF rest] by simp
qed

lemma replace_from_marker: "m \<noteq> [] \<Longrightarrow> replace_from (m @ s) m new = new @ replace_from s m new"
  by (cases m) simp_all

lemma replace_from_pieces:
  assumes "m \<noteq> []" and "\<forall>s\<in>set pieces. \<not> contains (s @ butlast m) m"
  shows "replace_from (concat (map (\<lambda>s. m @ s) pieces)) m [] = concat pieces"
  using assms(2)
proof (induction pieces)
  case Nil
  then show ?case by simp
next
  case (Cons p ps)
  let ?r = "concat (map (\<lambda>s. m @ s) ps)"
  have r: "?r = [] \<or> startswith ?r m"
    by (cases ps) simp_all
  have "replace_from (m @ p @ ?r) m [] = replace_from (p @ ?r) m []"
    using assms(1) replace_from_marker [of m "p @ ?r" "[]"] by simp
  also have "\<dots> = p @ replace_from ?r m []"
    using Cons.prems assms(1) r by (intro replace_from_skip) simp_all
  finally show ?case
    using Cons by simp
qed

lemma lstrip_head: "lstrip s = [] \<or> \<not> isspace (hd (lstrip s))"
  unfolding lstrip_def using hd_dropWhile [of isspace s] by blast

lemma rstrip_last: "rstrip s = [] \<or> \<not> isspace (last (rstrip s))"
proof (cases "dropWhile isspace (rev s) = []")
  case True
  then show ?thesis by (simp add: rstrip_def)
next
  case False
  then have "\<not> isspace (hd (dropWhile isspace (rev s)))"
    by (rule hd_dropWhile)
  with False show ?thesis
    by (simp add: rstrip_def last_rev)
qed

lemma lstrip_id: "s = [] \<or> \<not> isspace (hd s) \<Longrightarrow> lstrip s = s"
  by (cases s) (auto simp: lstrip_def)

lemma rstrip_id: "s = [] \<or> \<not> isspace (last s) \<Longrightarrow> rstrip s = s"
proof -
  assume a: "s = [] \<or> \<not> isspace (last s)"
  have "dropWhile isspace (rev s) = rev s"
    using a by (cases "rev s") (auto simp: last_rev [symmetric] simp del: last_rev)
  then show ?thesis by (simp add: rstrip_def)
qed

lemma lstrip_suffix: "\<exists>ws. s = ws @ lstrip s \<and> (\<forall>c\<in>set ws. isspace c)"
  unfolding lstrip_def
  by (metis takeWhile_dropWhile_id set_takeWhileD)

lemma strip_last: "strip s = [] \<or> \<not> isspace (last (strip s))"
proof (cases "strip s = []")
  case True
  then show ?thesis by simp
next
  case False
  obtain ws where ws: "rstrip s = ws @ lstrip (rstrip s)"
    using lstrip_suffix by blast
  from False have ne: "lstrip (rstrip s) \<noteq> []" by (simp add: strip_def)
  then have "rstrip s \<noteq> []" by (auto simp: lstrip_def)
  then have "\<not> isspace (last (rstrip s))" using rstrip_last by blast
  moreover have "last (rstrip s) = last (lstrip (rstrip s))"
    using ws ne by (metis last_appendR)
  ultimately show ?thesis by (simp add: strip_def)
qed

lemma strip_head: "strip s = [] \<or> \<not> isspace (hd (strip s))"
  unfolding strip_def by (rule lstrip_head)

lemma strip_id: "(s = [] \<or> (\<not> isspace (hd s) \<and> \<not> isspace (last s))) \<Longrightarrow> strip s = s"
  by (auto simp: strip_def rstrip_id lstrip_id)

lemma strip_strip [simp]: "strip (strip s) = strip s"
  using strip_head [of s] strip_last [of s] by (intro strip_id) blast

lemma strip_Nil [simp]: "strip [] = []"
  by (simp add: strip_def lstrip_def rstrip_def)

lemma rstrip_spaces: "\<forall>c\<in>set ws. isspace c \<Longrightarrow> rstrip (s @ ws) = rstrip s"
  by (simp add: rstrip_def dropWhile_append)

lemma lstrip_spaces: "\<forall>c\<in>set ws. isspace c \<Longrightarrow> lstrip (ws @ s) = lstrip s"
  by (simp add: lstrip_def dropWhile_append)

lemma rstrip_all_spaces: "\<forall>c\<in>set ws. isspace c \<Longrightarrow> rstrip ws = []"
  using rstrip_spaces [of ws "[]"] by (simp add: rstrip_def)

lemma rstrip_append:
  "rstrip (a @ b) = (if \<forall>c\<in>set b. isspace c then rstrip a else a @ rstrip b)"
  by (simp add: rstrip_def dropWhile_append)

lemma rstrip_Nil_iff: "rstrip s = [] \<longleftrightarrow> (\<forall>c\<in>set s. isspace c)"
  by (simp add: rstrip_def)

lemma strip_spaces:
  assumes "\<forall>c\<in>set ws. isspace c" and "\<forall>c\<in>set ws'. isspace c"
  shows "strip (ws @ line @ ws') = strip line"
proof -
  have "strip (ws @ line @ ws') = lstrip (rstrip (ws @ line))"
    using assms(2) rstrip_spaces [of ws' "ws @ line"] by (simp add: strip_def)
  also have "\<dots> = lstrip (rstrip line)"
  proof (cases "\<forall>c\<in>set line. isspace c")
    case True
    then have "rstrip (ws @ line) = rstrip ws" "rstrip line = []"
      by (simp_all add: rstrip_append rstrip_Nil_iff)
    then show ?thesis
      using assms(1) by (simp add: rstrip_all_spaces)
  next
    case False
    then have "rstrip (ws @ line) = ws @ rstrip line"
      by (auto simp: rstrip_append)
    then show ?thesis
      using assms(1) by (simp add: lstrip_spaces)
  qed
  finally show ?thesis by (simp add: strip_def)
qed

lemma strip_all_spaces: "\<forall>c\<in>set line. isspace c \<Longrightarrow> strip line = []"
  by (simp add: strip_def rstrip_all_spaces lstrip_def)



lemma endswith_last: "endswith s [c] \<Longrightarrow> s \<noteq> [] \<and> last s = c"
  by (cases s rule: rev_cases) (auto simp: endswith_def)

section \<open>The judge parser\<close>

lemma scan_lines_append: "scan_lines st (a @ b) = scan_lines (scan_lines st a) b"
  by (induction a arbitrary: st) auto

lemma scan_discard:
  "current_section st = [] \<Longrightarrow> \<forall>x\<in>set pre. \<not> marker_line x \<Longrightarrow> scan_lines st pre = st"
  by (induction pre arbitrary: st) (auto simp: scan_line_def marker_line_def)

lemma scan_cont_final:
  "current_section st = ''final_answer'' \<Longrightarrow> \<forall>x\<in>set cont. \<not> marker_line x \<Longrightarrow>
   scan_lines st cont =
     st\<lparr>acc_final_answer := acc_final_answer st @ concat (map (\<lambda>x. '' '' @ strip x) cont)\<rparr>"
  by (induction cont arbitrary: st) (auto simp: scan_line_def marker_line_def)

lemma scan_cont_reasoning:
  "current_section st = ''reasoning'' \<Longrightarrow> \<forall>x\<in>set cont. \<not> marker_line x \<Longrightarrow>
   scan_lines st cont =
     st\<lparr>acc_reasoning := acc_reasoning st @ concat (map (\<lambda>x. '' '' @ strip x) cont)\<rparr>"
  by (induction cont arbitrary: st) (auto simp: scan_line_def marker_line_def)

lemma reasoning_not_final: "startswith l ''REASONING:'' \<Longrightarrow> \<not> startswith l ''FINAL_ANSWER:''"
  by (cases l) auto

text \<open>
  Claim C1.  The judge's text is scanned line by line.  Lines seen before any marker are
  discarded: leading lines without a marker leave the initial state as it is.  A line
  beginning with \<open>FINAL_ANSWER:\<close> makes the final answer the active field and sets it to
  that line with the marker removed and the whitespace around it stripped; every
  following line without a marker is appended to it behind a separating space, itself
  stripped.  A line beginning with \<open>REASONING:\<close> does the same for the reasoning.  For
  the text \<open>FINAL_ANSWER: Hello\<close>, \<open>world\<close>, \<open>REASONING: because X\<close> (three lines) the
  parser returns the final answer \<open>Hello world\<close> and the reasoning \<open>because X\<close>.
\<close>

theorem judge_line_scanner:
  "((\<forall>x\<in>set pre. \<not> marker_line x) \<longrightarrow>
      scan_lines scan_init (pre @ rest) = scan_lines scan_init rest)
   \<and> (startswith l ''FINAL_ANSWER:'' \<and> (\<forall>x\<in>set cont. \<not> marker_line x) \<longrightarrow>
      scan_lines st (l # cont) =
        st\<lparr>current_section := ''final_answer'',
           acc_final_answer := strip (replace l ''FINAL_ANSWER:'' [])
              @ concat (map (\<lambda>x. '' '' @ strip x) cont)\<rparr>)
   \<and> (startswith l ''REASONING:'' \<and> (\<forall>x\<in>set cont. \<not> marker_line x) \<longrightarrow>
      scan_lines st (l # cont) =
        st\<lparr>current_section := ''reasoning'',
           acc_reasoning := strip (replace l ''REASONING:'' [])
              @ concat (map (\<lambda>x. '' '' @ strip x) cont)\<rparr>)
   \<and> parse_judge_response (''FINAL_ANSWER: Hello'' @ [NL] @ ''world'' @ [NL] @ ''REASONING: because X'')
       = \<lparr>final_answer = ''Hello world'', reasoning = ''because X''\<rparr>"
proof (intro conjI impI)
  assume "\<forall>x\<in>set pre. \<not> marker_line x"
  then have "scan_lines scan_init pre = scan_init"
    by (intro scan_discard) (simp_all add: scan_init_def)
  then show "scan_lines scan_init (pre @ rest) = scan_lines scan_init rest"
    by (simp add: scan_lines_append)
next
  assume a: "startswith l ''FINAL_ANSWER:'' \<and> (\<forall>x\<in>set cont. \<not> marker_line x)"
  let ?st = "scan_line st l"
  have s: "?st = st\<lparr>current_section := ''final_answer'',
           acc_final_answer := strip (replace l ''FINAL_ANSWER:'' [])\<rparr>"
    using a by (simp add: scan_line_def)
  have "scan_lines ?st cont = ?st\<lparr>acc_final_answer := acc_final_answer ?st @ concat (map (\<lambda>x. '' '' @ strip x) cont)\<rparr>"
    using a by (intro scan_cont_final) (simp_all add: s)
  then show "scan_lines st (l # cont) =
        st\<lparr>current_section := ''final_answer'',
           acc_final_answer := strip (replace l ''FINAL_ANSWER:'' [])
              @ concat (map (\<lambda>x. '' '' @ strip x) cont)\<rparr>"
    by (simp add: s)
next
  assume a: "startswith l ''REASONING:'' \<and> (\<forall>x\<in>set cont. \<not> marker_line x)"
  let ?st = "scan_line st l"
  have s: "?st = st\<lparr>current_section := ''reasoning'',
           acc_reasoning := strip (replace l ''REASONING:'' [])\<rparr>"
    using a reasoning_not_final[of l] by (simp add: scan_line_def)
  have "scan_lines ?st cont = ?st\<lparr>acc_reasoning := acc_reasoning ?st @ concat (map (\<lambda>x. '' '' @ strip x) cont)\<rparr>"
    using a by (intro scan_cont_reasoning) (simp_all add: s)
  then show "scan_lines st (l # cont) =
        st\<lparr>current_section := ''reasoning'',
           acc_reasoning := strip (replace l ''REASONING:'' [])
              @ concat (map (\<lambda>x. '' '' @ strip x) cont)\<rparr>"
    by (simp add: s)
next
  show "parse_judge_response (''FINAL_ANSWER: Hello'' @ [NL] @ ''world'' @ [NL] @ ''REASONING: because X'')
       = \<lparr>final_answer = ''Hello world'', reasoning = ''because X''\<rparr>"
    by code_simp
qed

theorem judge_line_scanner_witness:
  "\<not> marker_line ''Sure, here it is:''
   \<and> scan_lines scan_init ([''Sure, here it is:''] @ [''FINAL_ANSWER: Hello'', ''world'']) =
       scan_lines scan_init [''FINAL_ANSWER: Hello'', ''world'']
   \<and> startswith ''FINAL_ANSWER: Hello'' ''FINAL_ANSWER:'' \<and> \<not> marker_line ''world''
   \<and> scan_lines scan_init [''FINAL_ANSWER: Hello'', ''world''] =
       \<lparr>current_section = ''final_answer'', acc_final_answer = ''Hello world'', acc_reasoning = []\<rparr>
   \<and> startswith ''REASONING: because X'' ''REASONING:'' \<and> \<not> marker_line ''of Y''
   \<and> scan_lines scan_init [''REASONING: because X'', ''of Y''] =
       \<lparr>current_section = ''reasoning'', acc_final_answer = [], acc_reasoning = ''because X of Y''\<rparr>"
  using judge_line_scanner [of "[''Sure, here it is:'']" "[''FINAL_ANSWER: Hello'', ''world'']"
      "''FINAL_ANSWER: Hello''" "[''world'']" scan_init]
    judge_line_scanner [of "[]" "[]" "''REASONING: because X''" "[''of Y'']" scan_init]
  by (simp add: marker_line_def scan_init_def strip_def lstrip_def rstrip_def replace_def isspace_def)

lemma scan_line_final:
  "startswith l ''FINAL_ANSWER:'' \<Longrightarrow>
   acc_final_answer (scan_line st l) = strip (replace l ''FINAL_ANSWER:'' [])"
  by (simp add: scan_line_def)

lemma scan_line_reasoning:
  "startswith l ''REASONING:'' \<Longrightarrow>
   acc_reasoning (scan_line st l) = strip (replace l ''REASONING:'' [])"
  using reasoning_not_final [of l] by (simp add: scan_line_def)

lemma replace_nonempty: "old \<noteq> [] \<Longrightarrow> replace s old new = replace_from s old new"
  by (simp add: replace_def)

text \<open>
  Claim C9.  On a line that begins with a marker, \<open>replace\<close> deletes every occurrence of
  the marker, not only the leading one: a line made of any number of pieces, each behind
  an occurrence of the marker and none with a further occurrence starting in it, is
  stored as the pieces alone, stripped.  The same holds for both markers.
\<close>

theorem marker_removed_everywhere:
  "(pieces \<noteq> [] \<and> (\<forall>s\<in>set pieces. \<not> contains (s @ butlast ''FINAL_ANSWER:'') ''FINAL_ANSWER:'') \<longrightarrow>
      acc_final_answer (scan_line st (concat (map (\<lambda>s. ''FINAL_ANSWER:'' @ s) pieces)))
        = strip (concat pieces))
   \<and> (pieces \<noteq> [] \<and> (\<forall>s\<in>set pieces. \<not> contains (s @ butlast ''REASONING:'') ''REASONING:'') \<longrightarrow>
      acc_reasoning (scan_line st (concat (map (\<lambda>s. ''REASONING:'' @ s) pieces)))
        = strip (concat pieces))"
proof (intro conjI impI)
  let ?m = "''FINAL_ANSWER:''"
  assume a: "pieces \<noteq> [] \<and> (\<forall>s\<in>set pieces. \<not> contains (s @ butlast ?m) ?m)"
  let ?l = "concat (map (\<lambda>s. ?m @ s) pieces)"
  have ne: "?m \<noteq> []" by simp
  from a obtain p ps where "pieces = p # ps" by (cases pieces) auto
  then have "?l = ?m @ (p @ concat (map (\<lambda>s. ?m @ s) ps))" by simp
  then have sw: "startswith ?l ?m"
    by (simp only: startswith_append)
  have "replace ?l ?m [] = replace_from ?l ?m []"
    by (rule replace_nonempty [OF ne])
  also have "\<dots> = concat pieces"
    using a by (intro replace_from_pieces [OF ne]) blast
  finally show "acc_final_answer (scan_line st ?l) = strip (concat pieces)"
    by (simp only: scan_line_final [OF sw])
next
  let ?m = "''REASONING:''"
  assume a: "pieces \<noteq> [] \<and> (\<forall>s\<in>set pieces. \<not> contains (s @ butlast ?m) ?m)"
  let ?l = "concat (map (\<lambda>s. ?m @ s) pieces)"
  have ne: "?m \<noteq> []" by simp
  from a obtain p ps where "pieces = p # ps" by (cases pieces) auto
  then have "?l = ?m @ (p @ concat (map (\<lambda>s. ?m @ s) ps))" by simp
  then have sw: "startswith ?l ?m"
    by (simp only: startswith_append)
  have "replace ?l ?m [] = replace_from ?l ?m []"
    by (rule replace_nonempty [OF ne])
  also have "\<dots> = concat pieces"
    using a by (intro replace_from_pieces [OF ne]) blast
  finally show "acc_reasoning (scan_line st ?l) = strip (concat pieces)"
    by (simp only: scan_line_reasoning [OF sw])
qed

theorem marker_removed_everywhere_witness:
  "\<not> contains ('' a '' @ butlast ''FINAL_ANSWER:'') ''FINAL_ANSWER:''
   \<and> \<not> contains ('' b'' @ butlast ''FINAL_ANSWER:'') ''FINAL_ANSWER:''
   \<and> acc_final_answer (scan_line scan_init ''FINAL_ANSWER: a FINAL_ANSWER: b'') = ''a  b''
   \<and> \<not> contains ('' x '' @ butlast ''REASONING:'') ''REASONING:''
   \<and> \<not> contains ('' y'' @ butlast ''REASONING:'') ''REASONING:''
   \<and> acc_reasoning (scan_line scan_init ''REASONING: x REASONING: y'') = ''x  y''"
  using marker_removed_everywhere [of "['' a '', '' b'']" scan_init]
    marker_removed_everywhere [of "['' x '', '' y'']" scan_init]
  by (simp add: strip_def lstrip_def rstrip_def isspace_def)

text \<open>
  Claim C2, as the code has it.  When the line scan leaves both fields empty up to
  whitespace, the parser returns the whole raw text, stripped, as the final answer, and
  an empty reasoning.  The parser is a total function: it has no failing branch.  When
  the raw text is not all whitespace, the final answer or the reasoning returned is not
  empty.
\<close>

theorem judge_fallback:
  "(strip (acc_final_answer (scan_lines scan_init (split raw NL))) = []
      \<and> strip (acc_reasoning (scan_lines scan_init (split raw NL))) = [] \<longrightarrow>
      parse_judge_response raw = \<lparr>final_answer = strip raw, reasoning = []\<rparr>)
   \<and> (strip raw \<noteq> [] \<longrightarrow>
      final_answer (parse_judge_response raw) \<noteq> [] \<or> reasoning (parse_judge_response raw) \<noteq> [])"
  by (simp add: parse_judge_response_def Let_def)

theorem judge_fallback_witness:
  "strip (acc_final_answer (scan_lines scan_init (split ''  Just a plain answer. '' NL))) = []
   \<and> strip (acc_reasoning (scan_lines scan_init (split ''  Just a plain answer. '' NL))) = []
   \<and> parse_judge_response ''  Just a plain answer. ''
       = \<lparr>final_answer = ''Just a plain answer.'', reasoning = []\<rparr>
   \<and> strip ''REASONING: abc'' \<noteq> []
   \<and> reasoning (parse_judge_response ''REASONING: abc'') = ''abc''"
  using judge_fallback [of "''  Just a plain answer. ''"] judge_fallback [of "''REASONING: abc''"]
  by (simp add: parse_judge_response_def scan_init_def scan_line_def strip_def lstrip_def
      rstrip_def isspace_def replace_def Let_def)

text \<open>
  The final answer alone can be empty for a text that is not: the fallback is not taken
  when only the reasoning was found.
\<close>

theorem judge_final_answer_empty_counterexample:
  "''REASONING: abc'' \<noteq> [] \<and> strip ''REASONING: abc'' \<noteq> []
   \<and> final_answer (parse_judge_response ''REASONING: abc'') = []
   \<and> reasoning (parse_judge_response ''REASONING: abc'') = ''abc''"
  by (simp add: parse_judge_response_def scan_init_def scan_line_def strip_def lstrip_def rstrip_def
      isspace_def replace_def Let_def)

section \<open>The request handlers\<close>

lemma nth_three:
  assumes "i < 3"
  shows "[x, y, z] ! i = x \<or> [x, y, z] ! i = y \<or> [x, y, z] ! i = z"
proof -
  from assms have "i = 0 \<or> i = 1 \<or> i = 2" by arith
  then show ?thesis by auto
qed

lemma gather_all_succeed:
  assumes "{0, 1, 2} \<subseteq> set order"
  shows "gather order [Inr a, Inr b, Inr c] = Some (Inr [a, b, c])"
proof -
  have "\<not> isl ([Inr a, Inr b, Inr c :: exn + string] ! i)" if "i < 3" for i
    using nth_three [OF that, of "Inr a" "Inr b" "Inr c :: exn + string"] by auto
  then have "\<not> (\<exists>i\<in>set order. i < length [Inr a, Inr b, Inr c] \<and> isl ([Inr a, Inr b, Inr c :: exn + string] ! i))"
    by simp
  then have "find (\<lambda>i. i < length [Inr a, Inr b, Inr c] \<and> isl ([Inr a, Inr b, Inr c :: exn + string] ! i)) order = None"
    by (simp add: find_None_iff)
  moreover have "list_all (\<lambda>i. i \<in> set order) [0..<length [Inr a, Inr b, Inr c :: exn + string]]"
    using assms by (simp add: upt_rec numeral_2_eq_2)
  ultimately show ?thesis
    by (simp add: gather_def)
qed

lemma fan_out_all_succeed:
  "{0, 1, 2} \<subseteq> set order \<Longrightarrow>
   fan_out order (Inr a) (Inr b) (Inr c) =
     Some (Inr [''MODEL1'' \<mapsto> a, ''MODEL2'' \<mapsto> b, ''MODEL3'' \<mapsto> c])"
  by (simp add: fan_out_def gather_all_succeed)

lemma gather_first_failure:
  assumes "i \<in> set order" "i < length outs" "isl (outs ! i)"
  shows "\<exists>j err. j < length outs \<and> outs ! j = Inl err \<and> gather order outs = Some (Inl err)"
proof -
  let ?P = "\<lambda>i. i < length outs \<and> isl (outs ! i)"
  from assms have "find ?P order \<noteq> None"
    by (auto simp: find_None_iff)
  then obtain j where j: "find ?P order = Some j" by blast
  then have "?P j" by (auto simp: find_Some_iff)
  then obtain err where "outs ! j = Inl err" by (cases "outs ! j") auto
  with j \<open>?P j\<close> show ?thesis
    by (auto simp: gather_def)
qed

lemma fan_out_first_failure:
  assumes "i \<in> set order" "i < 3" "isl ([out1, out2, out3] ! i)"
  shows "\<exists>err. Inl err \<in> {out1, out2, out3} \<and> fan_out order out1 out2 out3 = Some (Inl err)"
proof -
  have "\<exists>j err. j < length [out1, out2, out3] \<and> [out1, out2, out3] ! j = Inl err
      \<and> gather order [out1, out2, out3] = Some (Inl err)"
    using assms by (intro gather_first_failure) simp_all
  then obtain j err where j: "j < 3" "[out1, out2, out3] ! j = Inl err"
    "gather order [out1, out2, out3] = Some (Inl err)" by (auto simp: numeral_3_eq_3)
  from j(1,2) have "Inl err \<in> {out1, out2, out3}"
    using nth_three [OF j(1), of out1 out2 out3] by auto
  with j(3) show ?thesis
    by (auto simp: fan_out_def)
qed

text \<open>
  Claim C4.  When the three invocations succeed and all complete, in whatever order,
  the fan-out stores under \<open>MODEL1\<close>, \<open>MODEL2\<close> and \<open>MODEL3\<close> the text of the first, second
  and third invocation: the result is the same for every order of completion.  That
  mapping is what \<open>ask_question\<close> hands to the judge and, when the model outputs are
  shown, returns.
\<close>

theorem fan_out_labels:
  "({0, 1, 2} \<subseteq> set order \<longrightarrow>
      fan_out order (Inr a) (Inr b) (Inr c) =
        Some (Inr [''MODEL1'' \<mapsto> a, ''MODEL2'' \<mapsto> b, ''MODEL3'' \<mapsto> c]))
   \<and> ({0, 1, 2} \<subseteq> set order \<and> {0, 1, 2} \<subseteq> set order' \<longrightarrow>
      fan_out order (Inr a) (Inr b) (Inr c) = fan_out order' (Inr a) (Inr b) (Inr c))
   \<and> ({0, 1, 2} \<subseteq> set order \<and> e ''MODEL1'' = Some m1 \<and> e ''MODEL2'' = Some m2
        \<and> e ''MODEL3'' = Some m3 \<and> e ''JUDGE'' = Some j
        \<and> m1 \<noteq> [] \<and> m2 \<noteq> [] \<and> m3 \<noteq> [] \<and> j \<noteq> [] \<and> e ''SHOW_MODEL_OUTPUT'' = Some ''true'' \<longrightarrow>
      ask_question e order (Inr a) (Inr b) (Inr c) (Inr r) request =
        Some ([Invoke m1 (question request) (system_message request),
               Invoke m2 (question request) (system_message request),
               Invoke m3 (question request) (system_message request),
               Invoke j (judge_prompt e (question request)
                   [''MODEL1'' \<mapsto> a, ''MODEL2'' \<mapsto> b, ''MODEL3'' \<mapsto> c])
                 judge_system_message],
              Inr \<lparr>input = question request,
                   models = Some [''MODEL1'' \<mapsto> a, ''MODEL2'' \<mapsto> b, ''MODEL3'' \<mapsto> c],
                   judge = parse_judge_response r\<rparr>))"
proof (intro conjI impI)
  assume "{0, 1, 2} \<subseteq> set order"
  then show "fan_out order (Inr a) (Inr b) (Inr c) =
        Some (Inr [''MODEL1'' \<mapsto> a, ''MODEL2'' \<mapsto> b, ''MODEL3'' \<mapsto> c])"
    by (rule fan_out_all_succeed)
next
  assume "{0, 1, 2} \<subseteq> set order \<and> {0, 1, 2} \<subseteq> set order'"
  then show "fan_out order (Inr a) (Inr b) (Inr c) = fan_out order' (Inr a) (Inr b) (Inr c)"
    by (simp only: fan_out_all_succeed)
next
  assume a: "{0, 1, 2} \<subseteq> set order \<and> e ''MODEL1'' = Some m1 \<and> e ''MODEL2'' = Some m2
        \<and> e ''MODEL3'' = Some m3 \<and> e ''JUDGE'' = Some j
        \<and> m1 \<noteq> [] \<and> m2 \<noteq> [] \<and> m3 \<noteq> [] \<and> j \<noteq> [] \<and> e ''SHOW_MODEL_OUTPUT'' = Some ''true''"
  then have f: "fan_out order (Inr a) (Inr b) (Inr c) =
        Some (Inr [''MODEL1'' \<mapsto> a, ''MODEL2'' \<mapsto> b, ''MODEL3'' \<mapsto> c])"
    by (intro fan_out_all_succeed) blast
  have l: "lower ''true'' = ''true''"
    by (simp add: lower_def lower_char_def)
  show "ask_question e order (Inr a) (Inr b) (Inr c) (Inr r) request =
        Some ([Invoke m1 (question request) (system_message request),
               Invoke m2 (question request) (system_message request),
               Invoke m3 (question request) (system_message request),
               Invoke j (judge_prompt e (question request)
                   [''MODEL1'' \<mapsto> a, ''MODEL2'' \<mapsto> b, ''MODEL3'' \<mapsto> c])
                 judge_system_message],
              Inr \<lparr>input = question request,
                   models = Some [''MODEL1'' \<mapsto> a, ''MODEL2'' \<mapsto> b, ''MODEL3'' \<mapsto> c],
                   judge = parse_judge_response r\<rparr>)"
    using a by (simp add: ask_question_def unset_def f process_with_judge_def l)
qed

text \<open>
  Claim C5.  When one of the three invocations completes with an exception, the
  fan-out raises the exception of one of the invocations and yields no mapping, and
  \<open>ask_question\<close> raises it through its \<open>except\<close> clauses, which leave an
  \<open>HTTPException\<close> as it is.  The only model invocations of the run are the three of the
  fan-out: the judge is not invoked.
\<close>

theorem fan_out_all_or_nothing:
  "(i \<in> set order \<and> i < 3 \<and> isl ([out1, out2, out3] ! i) \<longrightarrow>
     (\<exists>err. Inl err \<in> {out1, out2, out3}
        \<and> fan_out order out1 out2 out3 = Some (Inl err)
        \<and> (e ''MODEL1'' = Some m1 \<and> e ''MODEL2'' = Some m2 \<and> e ''MODEL3'' = Some m3
             \<and> m1 \<noteq> [] \<and> m2 \<noteq> [] \<and> m3 \<noteq> [] \<longrightarrow>
            ask_question e order out1 out2 out3 judge_out request =
              Some ([Invoke m1 (question request) (system_message request),
                     Invoke m2 (question request) (system_message request),
                     Invoke m3 (question request) (system_message request)],
                    Inl (handle_exn err)))))
   \<and> handle_exn (HTTPException code detail) = HTTPException code detail"
proof (intro conjI impI)
  assume a: "i \<in> set order \<and> i < 3 \<and> isl ([out1, out2, out3] ! i)"
  then obtain err where err: "Inl err \<in> {out1, out2, out3}"
    "fan_out order out1 out2 out3 = Some (Inl err)"
    using fan_out_first_failure [of i order out1 out2 out3] by blast
  have "e ''MODEL1'' = Some m1 \<and> e ''MODEL2'' = Some m2 \<and> e ''MODEL3'' = Some m3
             \<and> m1 \<noteq> [] \<and> m2 \<noteq> [] \<and> m3 \<noteq> [] \<longrightarrow>
            ask_question e order out1 out2 out3 judge_out request =
              Some ([Invoke m1 (question request) (system_message request),
                     Invoke m2 (question request) (system_message request),
                     Invoke m3 (question request) (system_message request)],
                    Inl (handle_exn err))"
    by (simp add: ask_question_def unset_def err(2))
  with err show "\<exists>err. Inl err \<in> {out1, out2, out3}
        \<and> fan_out order out1 out2 out3 = Some (Inl err)
        \<and> (e ''MODEL1'' = Some m1 \<and> e ''MODEL2'' = Some m2 \<and> e ''MODEL3'' = Some m3
             \<and> m1 \<noteq> [] \<and> m2 \<noteq> [] \<and> m3 \<noteq> [] \<longrightarrow>
            ask_question e order out1 out2 out3 judge_out request =
              Some ([Invoke m1 (question request) (system_message request),
                     Invoke m2 (question request) (system_message request),
                     Invoke m3 (question request) (system_message request)],
                    Inl (handle_exn err)))"
    by blast
next
  show "handle_exn (HTTPException code detail) = HTTPException code detail"
    by simp
qed

theorem fan_out_labels_witness:
  "{0, 1, 2} \<subseteq> set [2, 0, 1 :: nat]
   \<and> fan_out [2, 0, 1] (Inr ''a'') (Inr ''b'') (Inr ''c'') =
        Some (Inr [''MODEL1'' \<mapsto> ''a'', ''MODEL2'' \<mapsto> ''b'', ''MODEL3'' \<mapsto> ''c''])
   \<and> fan_out [2, 0, 1] (Inr ''a'') (Inr ''b'') (Inr ''c'') =
        fan_out [0, 1, 2] (Inr ''a'') (Inr ''b'') (Inr ''c'')
   \<and> map_option snd (ask_question
          [''MODEL1'' \<mapsto> ''m1'', ''MODEL2'' \<mapsto> ''m2'', ''MODEL3'' \<mapsto> ''m3'', ''JUDGE'' \<mapsto> ''j'',
           ''SHOW_MODEL_OUTPUT'' \<mapsto> ''true'']
          [2, 0, 1] (Inr ''a'') (Inr ''b'') (Inr ''c'') (Inr ''FINAL_ANSWER: Hello'')
          \<lparr>question = ''q'', system_message = []\<rparr>) =
        Some (Inr \<lparr>input = ''q'',
                   models = Some [''MODEL1'' \<mapsto> ''a'', ''MODEL2'' \<mapsto> ''b'', ''MODEL3'' \<mapsto> ''c''],
                   judge = \<lparr>final_answer = ''Hello'', reasoning = []\<rparr>\<rparr>)"
proof -
  have p: "parse_judge_response ''FINAL_ANSWER: Hello'' = \<lparr>final_answer = ''Hello'', reasoning = []\<rparr>"
    by code_simp
  show ?thesis
    using fan_out_labels [of "[2, 0, 1]" "''a''" "''b''" "''c''" "[0, 1, 2]"
        "[''MODEL1'' \<mapsto> ''m1'', ''MODEL2'' \<mapsto> ''m2'', ''MODEL3'' \<mapsto> ''m3'', ''JUDGE'' \<mapsto> ''j'',
           ''SHOW_MODEL_OUTPUT'' \<mapsto> ''true'']" "''m1''" "''m2''" "''m3''" "''j''"
        "''FINAL_ANSWER: Hello''" "\<lparr>question = ''q'', system_message = []\<rparr>"]
      fan_out_labels [of "[0, 1, 2]" "''a''" "''b''" "''c''" "[0, 1, 2]"]
    by (simp add: p del: One_nat_def)
qed

theorem fan_out_all_or_nothing_witness:
  "(1::nat) \<in> set [2, 0, 1] \<and> isl ([Inr ''a'', Inl (HTTPException 500 ''Error calling m2: boom''), Inr ''c''] ! 1)
   \<and> fan_out [2, 0, 1] (Inr ''a'') (Inl (HTTPException 500 ''Error calling m2: boom'')) (Inr ''c'')
        = Some (Inl (HTTPException 500 ''Error calling m2: boom''))
   \<and> ask_question [''MODEL1'' \<mapsto> ''m1'', ''MODEL2'' \<mapsto> ''m2'', ''MODEL3'' \<mapsto> ''m3'', ''JUDGE'' \<mapsto> ''j'']
        [2, 0, 1] (Inr ''a'') (Inl (HTTPException 500 ''Error calling m2: boom'')) (Inr ''c'')
        (Inr ''FINAL_ANSWER: Hello'') \<lparr>question = ''q'', system_message = []\<rparr>
       = Some ([Invoke ''m1'' ''q'' [], Invoke ''m2'' ''q'' [], Invoke ''m3'' ''q'' []],
               Inl (HTTPException 500 ''Error calling m2: boom''))"
  using fan_out_all_or_nothing [of 1 "[2, 0, 1]" "Inr ''a''"
      "Inl (HTTPException 500 ''Error calling m2: boom'')" "Inr ''c''"
      "[''MODEL1'' \<mapsto> ''m1'', ''MODEL2'' \<mapsto> ''m2'', ''MODEL3'' \<mapsto> ''m3'', ''JUDGE'' \<mapsto> ''j'']"
      "''m1''" "''m2''" "''m3''" "Inr ''FINAL_ANSWER: Hello''"
      "\<lparr>question = ''q'', system_message = []\<rparr>"]
  by auto

text \<open>
  Claim C3, as the code has it.  What \<open>web_ask_question\<close> returns is the final answer
  parsed from the judge's text, as it is: \<open>convert_to_markup\<close> is not applied to it.
\<close>

theorem web_returns_final_answer:
  "map_option snd
     (web_ask_question e validate_csrf_token order out1 out2 out3 judge_out q csrf_token)
     = Some (Inr response) \<Longrightarrow>
   \<exists>judge_response. judge_out = Inr judge_response
      \<and> response = final_answer (parse_judge_response judge_response)"
  by (auto simp: web_ask_question_def process_with_judge_def Let_def
      split: if_splits option.splits sum.splits prod.splits)

lemma web_example:
  "map_option snd
     (web_ask_question
        [''MODEL1'' \<mapsto> ''m1'', ''MODEL2'' \<mapsto> ''m2'', ''MODEL3'' \<mapsto> ''m3'', ''JUDGE'' \<mapsto> ''j'']
        (\<lambda>token. True) [0, 1, 2] (Inr ''a'') (Inr ''b'') (Inr ''c'')
        (Inr ''FINAL_ANSWER: Hello'') ''q'' ''token'')
     = Some (Inr ''Hello'')"
proof -
  have p: "parse_judge_response ''FINAL_ANSWER: Hello'' = \<lparr>final_answer = ''Hello'', reasoning = []\<rparr>"
    by code_simp
  have "{0, 1, 2} \<subseteq> set [0, 1, 2 :: nat]" by simp
  then have f: "fan_out [0, 1, 2] (Inr ''a'') (Inr ''b'') (Inr ''c'') =
      Some (Inr [''MODEL1'' \<mapsto> ''a'', ''MODEL2'' \<mapsto> ''b'', ''MODEL3'' \<mapsto> ''c''])"
    by (rule fan_out_all_succeed)
  show ?thesis
    by (simp add: web_ask_question_def unset_def f process_with_judge_def p del: One_nat_def)
qed

theorem web_returns_final_answer_witness:
  "map_option snd
     (web_ask_question
        [''MODEL1'' \<mapsto> ''m1'', ''MODEL2'' \<mapsto> ''m2'', ''MODEL3'' \<mapsto> ''m3'', ''JUDGE'' \<mapsto> ''j'']
        (\<lambda>token. True) [0, 1, 2] (Inr ''a'') (Inr ''b'') (Inr ''c'')
        (Inr ''FINAL_ANSWER: Hello'') ''q'' ''token'')
     = Some (Inr ''Hello'')
   \<and> ''Hello'' = final_answer (parse_judge_response ''FINAL_ANSWER: Hello'')"
  using web_returns_final_answer [OF web_example] web_example by simp

text \<open>
  For the judge's text \<open>FINAL_ANSWER: Hello\<close> the handler returns \<open>Hello\<close>, while the
  Markup Normalizer would turn that final answer into \<open><p>Hello</p>\<close>.
\<close>

theorem web_not_normalized_counterexample:
  "map_option snd
     (web_ask_question
        [''MODEL1'' \<mapsto> ''m1'', ''MODEL2'' \<mapsto> ''m2'', ''MODEL3'' \<mapsto> ''m3'', ''JUDGE'' \<mapsto> ''j'']
        (\<lambda>token. True) [0, 1, 2] (Inr ''a'') (Inr ''b'') (Inr ''c'')
        (Inr ''FINAL_ANSWER: Hello'') ''q'' ''token'')
     = Some (Inr ''Hello'')
   \<and> convert_to_markup (final_answer (parse_judge_response ''FINAL_ANSWER: Hello'')) = ''<p>Hello</p>''"
proof -
  have p: "parse_judge_response ''FINAL_ANSWER: Hello'' = \<lparr>final_answer = ''Hello'', reasoning = []\<rparr>"
    by code_simp
  have c: "convert_to_markup ''Hello'' = ''<p>Hello</p>''"
    by code_simp
  show ?thesis
    using web_example by (simp add: p c)
qed

section \<open>The Markup Normalizer\<close>

text \<open>
  Claim C10.  The line loop strips every line before classifying it: what it appends for
  a line is what it appends for the stripped line, so whitespace before and behind the
  line changes nothing in the resulting element, whichever it is, and a line of
  whitespace only becomes the break marker \<open><br>\<close>.
\<close>

theorem line_whitespace_stripped:
  "process_line line = process_line (strip line)
   \<and> ((\<forall>c\<in>set ws. isspace c) \<and> (\<forall>c\<in>set ws'. isspace c) \<longrightarrow>
        process_line (ws @ line @ ws') = process_line line)
   \<and> ((\<forall>c\<in>set line. isspace c) \<longrightarrow> process_line line = ''<br>'')"
  by (simp add: process_line_def strip_spaces strip_all_spaces)

theorem line_whitespace_stripped_witness:
  "isspace CHR '' '' \<and> isspace CHR 0x09
   \<and> process_line ([CHR '' '', CHR 0x09] @ ''- item'' @ '' '') = ''<li>item</li>''
   \<and> process_line ''- item'' = ''<li>item</li>''
   \<and> process_line ([CHR '' '', CHR 0x09] @ ''> quoted'' @ '' '')
        = ''<blockquote class='' @ [DQ] @ ''blockquote'' @ [DQ] @ ''><p>quoted</p></blockquote>''
   \<and> process_line ([CHR '' '', CHR 0x09] @ ''text'' @ '' '') = ''<p>text</p>''
   \<and> process_line [CHR '' '', CHR 0x09, CHR '' ''] = ''<br>''"
proof -
  have a: "process_line ''- item'' = ''<li>item</li>''"
    by code_simp
  have b: "process_line ''> quoted''
      = ''<blockquote class='' @ [DQ] @ ''blockquote'' @ [DQ] @ ''><p>quoted</p></blockquote>''"
    by code_simp
  have c: "process_line ''text'' = ''<p>text</p>''"
    by code_simp
  have s: "isspace CHR '' ''" "isspace CHR 0x09"
    by (simp_all add: isspace_def)
  have w1: "process_line ([CHR '' '', CHR 0x09] @ ''- item'' @ '' '') = process_line ''- item''"
    by (rule line_whitespace_stripped [THEN conjunct2, THEN conjunct1, THEN mp])
      (simp add: isspace_def)
  have w2: "process_line ([CHR '' '', CHR 0x09] @ ''> quoted'' @ '' '') = process_line ''> quoted''"
    by (rule line_whitespace_stripped [THEN conjunct2, THEN conjunct1, THEN mp])
      (simp add: isspace_def)
  have w3: "process_line ([CHR '' '', CHR 0x09] @ ''text'' @ '' '') = process_line ''text''"
    by (rule line_whitespace_stripped [THEN conjunct2, THEN conjunct1, THEN mp])
      (simp add: isspace_def)
  have w4: "process_line [CHR '' '', CHR 0x09, CHR '' ''] = ''<br>''"
    by (rule line_whitespace_stripped [THEN conjunct2, THEN conjunct2, THEN mp])
      (simp add: isspace_def)
  show ?thesis
    by (simp only: w1 w2 w3 w4 a b c s simp_thms)
qed

text \<open>
  Claim C7 does not hold of the code.  The clean-up replaces \<open><br>\s*<br>\<close> in one pass
  from left to right, so of three break markers in a row the first two become one and
  the third stays: for two text lines with three blank lines between them the output
  has two break markers between the paragraphs.
\<close>

theorem triple_break_not_collapsed:
  "convert_to_markup (''a'' @ [NL, NL, NL, NL] @ ''b'')
     = ''<p>a</p>'' @ [NL] @ ''<br>'' @ [NL] @ ''<br>'' @ [NL] @ ''<p>b</p>''"
  by code_simp

subsection \<open>Texts that no pattern matches\<close>


lemma re_sub_bol_only:
  assumes "\<And>t. m False t = None" and "NL \<notin> set s" and "m bol s = None"
  shows "re_sub m bol 0 s = s"
  using assms(2,3)
proof (induction s arbitrary: bol)
  case Nil
  then show ?case by simp
next
  case (Cons c cs)
  then have "c \<noteq> NL" "NL \<notin> set cs" by auto
  then show ?case
    using Cons.IH [of False] Cons.prems(2) assms(1) by simp
qed

lemma m_header_False [simp]: "m_header marker tag False t = None"
  by (simp add: m_header_def)

lemma m_hr_False [simp]: "m_hr False t = None"
  by (simp add: m_hr_def)






lemma m_newlines_fires: "m_newlines b t \<noteq> None \<Longrightarrow> startswith t [NL]"
  by (simp add: m_newlines_def split: if_splits)


subsection \<open>Headers and rules, line by line\<close>

lemma join_split: "join [NL] (split s NL) = s"
proof (induction s)
  case Nil
  then show ?case by simp
next
  case (Cons c cs)
  show ?case
  proof (cases "c = NL")
    case True
    with Cons show ?thesis
      by (cases "split cs NL") simp_all
  next
    case False
    with Cons show ?thesis
      by (cases "split cs NL"; cases "tl (split cs NL)") auto
  qed
qed

lemma split_lines: "l \<in> set (split s NL) \<Longrightarrow> NL \<notin> set l"
  by (induction s arbitrary: l) (auto split: if_splits list.splits)

lemma re_sub_False_line:
  assumes "\<And>t. m False t = None" and "NL \<notin> set cs"
  shows "re_sub m False 0 (cs @ NL # rest) = cs @ NL # re_sub m True 0 rest"
  using assms(2) by (induction cs) (auto simp: assms(1))

lemma re_sub_False_id:
  assumes "\<And>t. m False t = None" and "NL \<notin> set cs"
  shows "re_sub m False 0 cs = cs"
  using assms(2) by (induction cs) (auto simp: assms(1))

lemma re_sub_skip_line:
  assumes "\<And>t. m False t = None" and "NL \<notin> set cs" and "k \<le> length cs"
  shows "re_sub m b k (cs @ NL # rest) = drop k cs @ NL # re_sub m True 0 rest \<or> k = 0 \<and> b"
  using assms(2,3)
proof (induction cs arbitrary: k b)
  case Nil
  then show ?case by (cases b) (simp_all add: assms(1))
next
  case (Cons c cs)
  show ?case
  proof (cases k)
    case 0
    show ?thesis
    proof (cases b)
      case True
      with 0 show ?thesis by simp
    next
      case False
      with 0 Cons.prems re_sub_False_line [of m "c # cs" rest, OF assms(1)] show ?thesis
        by simp
    qed
  next
    case (Suc j)
    with Cons.prems have "j \<le> length cs" "c \<noteq> NL" "NL \<notin> set cs" by auto
    with Cons.IH [of j False] Suc show ?thesis by simp
  qed
qed

lemma re_sub_skip_id:
  assumes "\<And>t. m False t = None" and "NL \<notin> set cs"
  shows "re_sub m False k cs = drop k cs"
  using assms(2)
proof (induction cs arbitrary: k)
  case Nil
  then show ?case by simp
next
  case (Cons c cs)
  then show ?case
    using re_sub_False_id [of m "c # cs", OF assms(1)] by (cases k) auto
qed

lemma re_sub_line:
  assumes mF: "\<And>t. m False t = None" and nl: "NL \<notin> set l" and loc: "local_match m l"
  shows "re_sub m True 0 (l @ NL # rest) = re_sub m True 0 l @ NL # re_sub m True 0 rest"
proof (cases l)
  case Nil
  with loc have "m True (NL # rest) = m True []" and "m True [] = None"
    by (cases "m True []"; auto simp: local_match_def)+
  with Nil show ?thesis by simp
next
  case (Cons c cs)
  with nl have c: "c \<noteq> NL" and cs: "NL \<notin> set cs" by auto
  from loc have same: "m True (l @ NL # rest) = m True l"
    by (simp add: local_match_def)
  show ?thesis
  proof (cases "m True l")
    case None
    with same Cons c show ?thesis
      by (simp add: re_sub_False_line [of m cs, OF mF cs] re_sub_False_id [of m cs, OF mF cs])
  next
    case (Some a)
    obtain repl n where a: "a = (repl, n)" by (cases a)
    with Some loc have n: "0 < n" "n \<le> length l"
      by (auto simp: local_match_def)
    with Cons have "n - 1 \<le> length cs" by simp
    then have "re_sub m False (n - 1) (cs @ NL # rest) = drop (n - 1) cs @ NL # re_sub m True 0 rest"
      using re_sub_skip_line [of m cs "n - 1" False rest, OF mF cs] by simp
    with same Some a Cons c show ?thesis
      by (simp add: re_sub_skip_id [of m cs, OF mF cs])
  qed
qed

lemma re_sub_lines:
  assumes mF: "\<And>t. m False t = None"
  shows "\<forall>l\<in>set ls. NL \<notin> set l \<Longrightarrow> \<forall>l\<in>set (butlast ls). local_match m l \<Longrightarrow>
    re_sub m True 0 (join [NL] ls) = join [NL] (map (re_sub m True 0) ls)"
proof (induction ls rule: induct_list012)
  case 1
  then show ?case by simp
next
  case (2 x)
  then show ?case by simp
next
  case (3 x y ys)
  then have "re_sub m True 0 (join [NL] (y # ys)) = join [NL] (map (re_sub m True 0) (y # ys))"
    by simp
  moreover have "re_sub m True 0 (x @ NL # join [NL] (y # ys))
      = re_sub m True 0 x @ NL # re_sub m True 0 (join [NL] (y # ys))"
    using 3 by (intro re_sub_line [of m, OF mF]) simp_all
  ultimately show ?case by simp
qed


lemma re_sub_pass:
  assumes "\<And>t. m False t = None" and "\<forall>l\<in>set ls. NL \<notin> set l"
    and "\<forall>l\<in>set (butlast ls). local_match m l" and "\<forall>l\<in>set ls. re_sub m True 0 l = f l"
  shows "re_sub m True 0 (join [NL] ls) = join [NL] (map f ls)"
proof -
  have e: "map (re_sub m True 0) ls = map f ls"
    by (rule map_cong) (use assms(4) in auto)
  from re_sub_lines [of m ls, OF assms(1) assms(2) assms(3)] show ?thesis
    by (simp only: e)
qed

lemma startswith_before_newline:
  "NL \<notin> set marker \<Longrightarrow> startswith (l @ NL # rest) marker = startswith l marker"
  by (induction l marker rule: startswith.induct) auto

lemma header_match_line:
  assumes nl: "NL \<notin> set l" and sw: "startswith l marker"
  shows "m_header marker tag True l
    = Some (''<'' @ tag @ ''>'' @ lstrip (drop (length marker) l) @ ''</'' @ tag @ ''>'', length l)"
proof -
  let ?d = "drop (length marker) l"
  from sw have l: "l = marker @ ?d"
    by (metis append_take_drop_id startswith_take)
  have "NL \<notin> set (dropWhile isspace ?d)"
    using nl by (metis in_set_dropD set_dropWhileD)
  then have c: "takeWhile (\<lambda>x. x \<noteq> NL) (dropWhile isspace ?d) = dropWhile isspace ?d"
    by auto
  have "length (takeWhile isspace ?d) + length (dropWhile isspace ?d) = length ?d"
    by (metis length_append takeWhile_dropWhile_id)
  moreover have "length marker + length ?d = length l"
    using l by (metis length_append)
  ultimately have n: "length marker + length (takeWhile isspace ?d) + length (dropWhile isspace ?d) = length l"
    by simp
  show ?thesis
    using sw by (simp add: m_header_def c n lstrip_def Let_def)
qed

lemma header_local:
  assumes nl: "NL \<notin> set l" and mk: "NL \<notin> set marker" "marker \<noteq> []"
    and nb: "\<not> (startswith l marker \<and> (\<forall>c\<in>set (drop (length marker) l). isspace c))"
  shows "local_match (m_header marker tag) l"
proof (cases "startswith l marker")
  case False
  then show ?thesis
    by (simp add: local_match_def m_header_def startswith_before_newline [OF mk(1)])
next
  case True
  let ?d = "drop (length marker) l"
  from True nb obtain x where x: "x \<in> set ?d" "\<not> isspace x" by blast
  from True have len: "length marker \<le> length l"
    by (metis startswith_take length_take min.cobounded2 min.commute)
  have here: "m_header marker tag True l
      = Some (''<'' @ tag @ ''>'' @ lstrip ?d @ ''</'' @ tag @ ''>'', length l)"
    using nl True by (rule header_match_line)
  have "m_header marker tag True (l @ NL # rest) = m_header marker tag True l" for rest
  proof -
    have d: "drop (length marker) (l @ NL # rest) = ?d @ NL # rest"
      using len by simp
    have t: "takeWhile isspace (?d @ NL # rest) = takeWhile isspace ?d"
      using x by (rule takeWhile_append1)
    have dw: "dropWhile isspace (?d @ NL # rest) = dropWhile isspace ?d @ NL # rest"
      using x by (rule dropWhile_append1)
    have "NL \<notin> set (dropWhile isspace ?d)"
      using nl by (metis in_set_dropD set_dropWhileD)
    then have c: "takeWhile (\<lambda>x. x \<noteq> NL) (dropWhile isspace ?d @ NL # rest) = dropWhile isspace ?d"
      by (auto simp: takeWhile_tail)
    have "length (takeWhile isspace ?d) + length (dropWhile isspace ?d) = length ?d"
      by (metis length_append takeWhile_dropWhile_id)
    then have n: "length marker + length (takeWhile isspace ?d) + length (dropWhile isspace ?d) = length l"
      using len by simp
    have "m_header marker tag True (l @ NL # rest)
        = Some (''<'' @ tag @ ''>'' @ lstrip ?d @ ''</'' @ tag @ ''>'', length l)"
      using True by (simp add: m_header_def startswith_before_newline [OF mk(1)] d t dw c n
          lstrip_def Let_def del: drop_append)
    with here show ?thesis by simp
  qed
  moreover have "0 < length l"
    using len mk(2) by (cases marker) auto
  ultimately show ?thesis
    using here by (simp add: local_match_def)
qed

lemma header_line_value:
  assumes nl: "NL \<notin> set l" and mk: "marker \<noteq> []"
  shows "re_sub (m_header marker tag) True 0 l = header_line marker tag l"
proof (cases "startswith l marker")
  case False
  then have "re_sub (m_header marker tag) True 0 l = l"
    using nl by (intro re_sub_bol_only) (simp_all add: m_header_def)
  with False show ?thesis by (simp add: header_line_def)
next
  case True
  with mk obtain c cs where l: "l = c # cs" by (cases l; cases marker) auto
  have "m_header marker tag True l
      = Some (''<'' @ tag @ ''>'' @ lstrip (drop (length marker) l) @ ''</'' @ tag @ ''>'', length l)"
    using nl True by (rule header_match_line)
  moreover have "re_sub (m_header marker tag) False (length cs) cs = drop (length cs) cs"
    using nl l by (intro re_sub_skip_id) simp_all
  moreover have "c \<noteq> NL"
    using nl l by auto
  ultimately show ?thesis
    using True l by (simp add: header_line_def)
qed

lemma hr_local: "NL \<notin> set l \<Longrightarrow> local_match m_hr l"
proof -
  assume nl: "NL \<notin> set l"
  have t: "takeWhile (\<lambda>x. x = CHR ''-'') (l @ NL # rest) = takeWhile (\<lambda>x. x = CHR ''-'') l" for rest
    by (simp add: takeWhile_tail)
  have "0 < length (takeWhile (\<lambda>x. x = CHR ''-'') l)" if "startswith l ''---''"
    using that by (cases l) auto
  moreover have "length (takeWhile (\<lambda>x. x = CHR ''-'') l) \<le> length l"
    by (rule length_takeWhile_le)
  ultimately show ?thesis
    by (auto simp: local_match_def m_hr_def startswith_before_newline t)
qed

lemma rule_line_value:
  assumes nl: "NL \<notin> set l"
  shows "re_sub m_hr True 0 l = rule_line l"
proof (cases "startswith l ''---''")
  case False
  then have "re_sub m_hr True 0 l = l"
    using nl by (intro re_sub_bol_only) (simp_all add: m_hr_def)
  with False show ?thesis by (simp add: rule_line_def)
next
  case True
  then obtain cs where l: "l = CHR ''-'' # cs" by (cases l) auto
  let ?n = "length (takeWhile (\<lambda>x. x = CHR ''-'') cs)"
  have "re_sub m_hr False ?n cs = drop ?n cs"
    using nl l by (intro re_sub_skip_id) simp_all
  moreover have "drop ?n cs = dropWhile (\<lambda>x. x = CHR ''-'') cs"
    by (simp add: dropWhile_eq_drop)
  ultimately show ?thesis
    using True l by (simp add: rule_line_def m_hr_def)
qed

lemma header_line_no_newline:
  "NL \<notin> set l \<Longrightarrow> NL \<notin> set tag \<Longrightarrow> NL \<notin> set (header_line marker tag l)"
  by (auto simp: header_line_def lstrip_def dest: set_dropWhileD in_set_dropD)


lemma spec_line_markup_compose:
  "rule_line (header_line ''#'' ''h1'' (header_line ''##'' ''h2'' (header_line ''###'' ''h3'' l)))
     = spec_line_markup l"
proof (cases "startswith l ''#''")
  case False
  then have "\<not> startswith l ''##''" "\<not> startswith l ''###''"
    by (cases l; simp)+
  with False show ?thesis
    by (simp add: header_line_def rule_line_def spec_line_markup_def)
next
  case True
  then have "\<not> startswith l ''---''"
    by (cases l) auto
  then show ?thesis
    by (simp add: header_line_def rule_line_def spec_line_markup_def numeral_2_eq_2
        numeral_3_eq_3)
qed

lemma local_h3:
  "\<not> bare_marker l \<Longrightarrow> NL \<notin> set l \<Longrightarrow> local_match (m_header ''###'' ''h3'') l"
  by (intro header_local) (auto simp: bare_marker_def)

lemma local_h2:
  "\<not> bare_marker l \<Longrightarrow> NL \<notin> set l \<Longrightarrow>
   local_match (m_header ''##'' ''h2'') (header_line ''###'' ''h3'' l)"
  by (intro header_local header_line_no_newline)
    (auto simp: bare_marker_def header_line_def)

lemma local_h1:
  "\<not> bare_marker l \<Longrightarrow> NL \<notin> set l \<Longrightarrow>
   local_match (m_header ''#'' ''h1'') (header_line ''##'' ''h2'' (header_line ''###'' ''h3'' l))"
  by (intro header_local header_line_no_newline)
    (auto simp: bare_marker_def header_line_def)

lemma headers_and_rules_lines:
  assumes nb: "\<forall>l\<in>set (butlast (split text NL)). \<not> bare_marker l"
  shows "headers_and_rules text = join [NL] (map spec_line_markup (split text NL))"
proof -
  let ?ls = "split text NL"
  let ?H3 = "header_line ''###'' ''h3''"
  let ?H2 = "header_line ''##'' ''h2''"
  let ?H1 = "header_line ''#'' ''h1''"
  have nl: "\<forall>l\<in>set ?ls. NL \<notin> set l"
    using split_lines by blast
  have inb: "l \<in> set ?ls" if "l \<in> set (butlast ?ls)" for l
    using that by (rule in_set_butlastD)
  have p3: "re_sub (m_header ''###'' ''h3'') True 0 (join [NL] ?ls) = join [NL] (map ?H3 ?ls)"
  proof (rule re_sub_pass)
    show "\<forall>l\<in>set (butlast ?ls). local_match (m_header ''###'' ''h3'') l"
      using nb nl inb local_h3 by blast
    show "\<forall>l\<in>set ?ls. re_sub (m_header ''###'' ''h3'') True 0 l = ?H3 l"
      using nl by (simp add: header_line_value)
  qed (use nl in simp_all)
  have nl3: "\<forall>l\<in>set (map ?H3 ?ls). NL \<notin> set l"
    using nl by (simp add: header_line_no_newline)
  have p2: "re_sub (m_header ''##'' ''h2'') True 0 (join [NL] (map ?H3 ?ls))
      = join [NL] (map ?H2 (map ?H3 ?ls))"
  proof (rule re_sub_pass)
    show "\<forall>l\<in>set (butlast (map ?H3 ?ls)). local_match (m_header ''##'' ''h2'') l"
      using nb nl inb local_h2 by (auto simp: map_butlast [symmetric])
    show "\<forall>l\<in>set (map ?H3 ?ls). re_sub (m_header ''##'' ''h2'') True 0 l = ?H2 l"
      using nl3 by (simp add: header_line_value)
  qed (use nl3 in simp_all)
  have nl2: "\<forall>l\<in>set (map ?H2 (map ?H3 ?ls)). NL \<notin> set l"
    using nl by (simp add: header_line_no_newline)
  have p1: "re_sub (m_header ''#'' ''h1'') True 0 (join [NL] (map ?H2 (map ?H3 ?ls)))
      = join [NL] (map ?H1 (map ?H2 (map ?H3 ?ls)))"
  proof (rule re_sub_pass)
    show "\<forall>l\<in>set (butlast (map ?H2 (map ?H3 ?ls))). local_match (m_header ''#'' ''h1'') l"
      using nb nl inb local_h1 by (auto simp: map_butlast [symmetric])
    show "\<forall>l\<in>set (map ?H2 (map ?H3 ?ls)). re_sub (m_header ''#'' ''h1'') True 0 l = ?H1 l"
      using nl2 by (simp add: header_line_value)
  qed (use nl2 in simp_all)
  have nl1: "\<forall>l\<in>set (map ?H1 (map ?H2 (map ?H3 ?ls))). NL \<notin> set l"
    using nl by (simp add: header_line_no_newline)
  have pr: "re_sub m_hr True 0 (join [NL] (map ?H1 (map ?H2 (map ?H3 ?ls))))
      = join [NL] (map rule_line (map ?H1 (map ?H2 (map ?H3 ?ls))))"
  proof (rule re_sub_pass)
    show "\<forall>l\<in>set (butlast (map ?H1 (map ?H2 (map ?H3 ?ls)))). local_match m_hr l"
      using nl1 hr_local by (meson in_set_butlastD)
    show "\<forall>l\<in>set (map ?H1 (map ?H2 (map ?H3 ?ls))). re_sub m_hr True 0 l = rule_line l"
      using nl1 by (simp add: rule_line_value)
  qed (use nl1 in simp_all)
  have "headers_and_rules (join [NL] ?ls)
      = join [NL] (map rule_line (map ?H1 (map ?H2 (map ?H3 ?ls))))"
    by (simp only: headers_and_rules_def Let_def p3 p2 p1 pr)
  also have "map rule_line (map ?H1 (map ?H2 (map ?H3 ?ls))) = map spec_line_markup ?ls"
    by (simp add: spec_line_markup_compose)
  finally show ?thesis
    by (simp add: join_split)
qed

text \<open>
  Claim C6, as the code has it.  On a text in which no line but the last is a bare
  heading marker, steps 1 and 2 work line by line: every line starting with \<open>###\<close>,
  \<open>##\<close> or \<open>#\<close> becomes the heading element \<open>h3\<close>, \<open>h2\<close> or \<open>h1\<close>, and every line
  starting with three or more dashes has that run of dashes replaced by the
  horizontal-rule element \<open><hr>\<close>.  Lines starting with asterisks are not rules.
\<close>

theorem headers_and_rules_by_line:
  "(\<forall>l\<in>set (butlast (split text NL)). \<not> bare_marker l) \<longrightarrow>
   headers_and_rules text = join [NL] (map spec_line_markup (split text NL))"
  by (rule impI) (rule headers_and_rules_lines)

lemma example_lines:
  "split (''# Title'' @ [NL] @ ''----rule'' @ [NL] @ ''####  deep'' @ [NL] @ ''plain'' @ [NL] @ ''##'') NL
     = [''# Title'', ''----rule'', ''####  deep'', ''plain'', ''##'']"
  by simp

theorem headers_and_rules_by_line_witness:
  "\<not> bare_marker ''# Title'' \<and> \<not> bare_marker ''----rule'' \<and> \<not> bare_marker ''####  deep''
   \<and> \<not> bare_marker ''plain''
   \<and> headers_and_rules
        (''# Title'' @ [NL] @ ''----rule'' @ [NL] @ ''####  deep'' @ [NL] @ ''plain'' @ [NL] @ ''##'')
      = ''<h1>Title</h1>'' @ [NL] @ ''<hr>rule'' @ [NL] @ ''<h3>#  deep</h3>'' @ [NL] @ ''plain''
          @ [NL] @ ''<h2></h2>''"
  using headers_and_rules_by_line
    [of "''# Title'' @ [NL] @ ''----rule'' @ [NL] @ ''####  deep'' @ [NL] @ ''plain'' @ [NL] @ ''##''"]
  unfolding example_lines
  by (simp add: bare_marker_def spec_line_markup_def lstrip_def isspace_def)

text \<open>
  A line of three asterisks does not become a horizontal rule: the emphasis pattern reads
  its first two asterisks as an empty emphasis, and the line becomes a paragraph.
\<close>

theorem asterisk_rule_counterexample:
  "startswith ''***'' ''***''
   \<and> convert_to_markup ''***'' = ''<p><em></em>*</p>''
   \<and> \<not> contains (convert_to_markup ''***'') ''<hr>''"
proof -
  have c: "convert_to_markup ''***'' = ''<p><em></em>*</p>''"
    by code_simp
  show ?thesis
    by (simp add: c)
qed

subsection \<open>Converted lines, run again\<close>

























end
